theory Spec2Isabelle
  imports Complex_Main "HOL-Library.Word"
begin

section \<open>The LRU cache with TTL of the distributed-cache repository\<close>

text \<open>
  The cache engine of \<^verbatim>\<open>src/main.go\<close> (lines 743 to 968, from \<^verbatim>\<open>CacheEntry\<close> to
  \<^verbatim>\<open>calculateHitRate\<close>): a Go map from keys to entry pointers, a \<^verbatim>\<open>container/list\<close> recency list of the same
  entry pointers, a capacity and a size counter. Every operation runs under the mutex,
  so an operation is one atomic state transformer.

  \<^item> Entries live in a store addressed by pointers (\<open>heap\<close>); the map and the list hold
    addresses, so that the mutation of an entry in \<open>Get\<close> is seen through both.
  \<^item> A list element is created only by \<^verbatim>\<open>PushFront(entry)\<close> in \<open>Set\<close> and stored in
    \<^verbatim>\<open>entry.element\<close>, never reassigned: an element is identified with the address of the
    entry it carries, and the list is the sequence of these addresses, front first.
  \<^item> \<^verbatim>\<open>time.Now()\<close> is an input: the clock reading of the call (for \<open>Cleanup\<close>, one
    reading for every entry the loop examines). Times and durations are integers
    (nanoseconds); \<^verbatim>\<open>t.After(u)\<close> is \<open>u < t\<close>.
  \<^item> Go's \<^verbatim>\<open>range\<close> over a map visits the keys in an unspecified order: the order is an
    input of the functions that iterate.
  \<^item> \<^verbatim>\<open>int\<close> and \<^verbatim>\<open>int64\<close> counters are mathematical integers: they move by one per
    call, out of reach of 64-bit wrap-around.
\<close>

type_synonym addr = nat
type_synonym time = int
type_synonym duration = int
type_synonym byte = "8 word"

record CacheEntry =
  Key :: string
  Value :: "byte list"
  ExpiresAt :: "time option"
  CreatedAt :: time
  AccessCount :: int
  LastAccessed :: time

record Cache =
  heap :: "addr \<Rightarrow> CacheEntry"
  nextAddr :: addr
  data :: "string \<rightharpoonup> addr"
  lru :: "addr list"
  maxSize :: int
  currentSize :: int

text \<open>The state of a store cell that no entry has been allocated in.\<close>

definition nilEntry :: CacheEntry where
  "nilEntry = \<lparr>Key = [], Value = [], ExpiresAt = None, CreatedAt = 0,
     AccessCount = 0, LastAccessed = 0\<rparr>"

text \<open>\<^verbatim>\<open>NewCache(maxSize)\<close>: an empty map, an empty list, size zero; no check of \<open>maxSize\<close>.\<close>

definition NewCache :: "int \<Rightarrow> Cache" where
  "NewCache n = \<lparr>heap = (\<lambda>_. nilEntry), nextAddr = 0, data = Map.empty, lru = [],
     maxSize = n, currentSize = 0\<rparr>"

text \<open>\<^verbatim>\<open>entry.ExpiresAt != nil && time.Now().After(*entry.ExpiresAt)\<close>\<close>

definition is_expired :: "CacheEntry \<Rightarrow> time \<Rightarrow> bool" where
  "is_expired e now = (case ExpiresAt e of None \<Rightarrow> False | Some t \<Rightarrow> t < now)"

text \<open>
  The three list operations of \<^verbatim>\<open>container/list\<close> the cache uses. \<^verbatim>\<open>Remove\<close> and
  \<^verbatim>\<open>MoveToFront\<close> do nothing for an element that is not in the list.
\<close>

definition PushFront :: "addr \<Rightarrow> addr list \<Rightarrow> addr list" where
  "PushFront a xs = a # xs"

definition Remove :: "addr \<Rightarrow> addr list \<Rightarrow> addr list" where
  "Remove a xs = remove1 a xs"

definition MoveToFront :: "addr \<Rightarrow> addr list \<Rightarrow> addr list" where
  "MoveToFront a xs = (if a \<in> set xs then a # remove1 a xs else xs)"

text \<open>\<^verbatim>\<open>removeEntry\<close>: unlink the element, delete \<^verbatim>\<open>entry.Key\<close> from the map, decrement.\<close>

definition removeEntry :: "Cache \<Rightarrow> addr \<Rightarrow> Cache" where
  "removeEntry c a =
     c\<lparr>lru := Remove a (lru c),
       data := (data c)(Key (heap c a) := None),
       currentSize := currentSize c - 1\<rparr>"

text \<open>\<^verbatim>\<open>evictLRU\<close>: \<^verbatim>\<open>Back()\<close> is nil on an empty list, and then nothing happens.\<close>

definition evictLRU :: "Cache \<Rightarrow> Cache" where
  "evictLRU c = (case lru c of [] \<Rightarrow> c | _ # _ \<Rightarrow> removeEntry c (last (lru c)))"

text \<open>\<^verbatim>\<open>Get\<close>: the result is the pair (value, found) and the new state.\<close>

definition Get :: "Cache \<Rightarrow> string \<Rightarrow> time \<Rightarrow> (byte list \<times> bool) \<times> Cache" where
  "Get c key now =
     (case data c key of
        None \<Rightarrow> (([], False), c)
      | Some a \<Rightarrow>
          if is_expired (heap c a) now then (([], False), removeEntry c a)
          else
            ((Value (heap c a), True),
             c\<lparr>heap := (heap c)(a := (heap c a)\<lparr>AccessCount := AccessCount (heap c a) + 1,
                                               LastAccessed := now\<rparr>),
               lru := MoveToFront a (lru c)\<rparr>))"

text \<open>
  \<^verbatim>\<open>Set\<close> in its three parts: the removal of an existing entry, the construction and
  insertion of the new entry at a fresh address, and the eviction loop
  \<^verbatim>\<open>for c.currentSize > c.maxSize && c.lru.Len() > 0 { c.evictLRU() }\<close>.
\<close>

definition removeExisting :: "Cache \<Rightarrow> string \<Rightarrow> Cache" where
  "removeExisting c key = (case data c key of None \<Rightarrow> c | Some a \<Rightarrow> removeEntry c a)"

definition newEntry :: "string \<Rightarrow> byte list \<Rightarrow> duration option \<Rightarrow> time \<Rightarrow> CacheEntry" where
  "newEntry key val ttl now =
     \<lparr>Key = key, Value = val,
      ExpiresAt = (case ttl of None \<Rightarrow> None | Some d \<Rightarrow> Some (now + d)),
      CreatedAt = now, AccessCount = 0, LastAccessed = now\<rparr>"

definition insertEntry :: "Cache \<Rightarrow> string \<Rightarrow> CacheEntry \<Rightarrow> Cache" where
  "insertEntry c key e =
     c\<lparr>heap := (heap c)(nextAddr c := e),
       nextAddr := Suc (nextAddr c),
       lru := PushFront (nextAddr c) (lru c),
       data := (data c)(key \<mapsto> nextAddr c),
       currentSize := currentSize c + 1\<rparr>"

function evictLoop :: "Cache \<Rightarrow> Cache" where
  "evictLoop c =
     (if maxSize c < currentSize c \<and> 0 < length (lru c) then evictLoop (evictLRU c) else c)"
  by pat_completeness auto
termination
proof (relation "measure (\<lambda>c. length (lru c))")
  show "wf (measure (\<lambda>c. length (lru c)))" by simp
next
  fix c :: Cache
  assume "maxSize c < currentSize c \<and> 0 < length (lru c)"
  then have ne: "lru c \<noteq> []" by simp
  then have "last (lru c) \<in> set (lru c)" by simp
  then have "length (remove1 (last (lru c)) (lru c)) < length (lru c)"
    using ne by (simp add: length_remove1)
  moreover have "evictLRU c = removeEntry c (last (lru c))"
    using ne by (cases "lru c") (simp_all add: evictLRU_def)
  ultimately show "(evictLRU c, c) \<in> measure (\<lambda>c. length (lru c))"
    by (simp add: removeEntry_def Remove_def)
qed

declare evictLoop.simps [simp del]

definition Set :: "Cache \<Rightarrow> string \<Rightarrow> byte list \<Rightarrow> duration option \<Rightarrow> time \<Rightarrow> Cache" where
  "Set c key val ttl now =
     evictLoop (insertEntry (removeExisting c key) key (newEntry key val ttl now))"

text \<open>\<^verbatim>\<open>Delete\<close>: no look at the expiry time.\<close>

definition Delete :: "Cache \<Rightarrow> string \<Rightarrow> bool \<times> Cache" where
  "Delete c key = (case data c key of None \<Rightarrow> (False, c) | Some a \<Rightarrow> (True, removeEntry c a))"

text \<open>\<^verbatim>\<open>Exists\<close>: read-only, an expired entry counts as absent and stays in place.\<close>

definition Exists :: "Cache \<Rightarrow> string \<Rightarrow> time \<Rightarrow> bool" where
  "Exists c key now =
     (case data c key of None \<Rightarrow> False | Some a \<Rightarrow> \<not> is_expired (heap c a) now)"

definition Clear :: "Cache \<Rightarrow> Cache" where
  "Clear c = c\<lparr>data := Map.empty, lru := [], currentSize := 0\<rparr>"

text \<open>
  \<^verbatim>\<open>Cleanup\<close>: the loop over the map, one step for each pair of a key and the clock
  reading at which its entry is examined. A key that is no longer in the map when its
  turn comes is not produced by \<^verbatim>\<open>range\<close>. The body removes the entry with
  \<^verbatim>\<open>removeEntry\<close> and then deletes the key from the map once more.
\<close>

fun CleanupLoop :: "(string \<times> time) list \<Rightarrow> Cache \<Rightarrow> int \<Rightarrow> int \<times> Cache" where
  "CleanupLoop [] c expired = (expired, c)"
| "CleanupLoop ((key, now) # rest) c expired =
     (case data c key of
        None \<Rightarrow> CleanupLoop rest c expired
      | Some a \<Rightarrow>
          if is_expired (heap c a) now
          then CleanupLoop rest
                 ((removeEntry c a)\<lparr>data := (data (removeEntry c a))(key := None)\<rparr>)
                 (expired + 1)
          else CleanupLoop rest c expired)"

definition Cleanup :: "Cache \<Rightarrow> (string \<times> time) list \<Rightarrow> int \<times> Cache" where
  "Cleanup c sched = CleanupLoop sched c 0"







section \<open>The consistency invariant\<close>

text \<open>
  The map and the list hold the same entries: the list has no address twice, every
  address the map holds is in the list at an entry that carries the map's key, every
  address in the list is the one the map holds for its entry's key, the size counter is
  the length of the list, and no address in use is one the allocator will hand out.
\<close>

definition cache_inv :: "Cache \<Rightarrow> bool" where
  "cache_inv c \<longleftrightarrow>
     distinct (lru c) \<and>
     (\<forall>k a. data c k = Some a \<longrightarrow> a \<in> set (lru c) \<and> Key (heap c a) = k) \<and>
     (\<forall>a \<in> set (lru c). data c (Key (heap c a)) = Some a) \<and>
     currentSize c = int (length (lru c)) \<and>
     (\<forall>a \<in> set (lru c). a < nextAddr c)"

text \<open>
  The keys of the entries in the recency list, most recently used first.
\<close>

definition lru_keys :: "Cache \<Rightarrow> string list" where
  "lru_keys c = map (\<lambda>a. Key (heap c a)) (lru c)"

text \<open>
  A run of \<open>Set\<close> calls without TTL and with no other call in between: each call
  has its key, its value and its clock reading.
\<close>

fun SetAll :: "Cache \<Rightarrow> (string \<times> byte list \<times> time) list \<Rightarrow> Cache" where
  "SetAll c [] = c"
| "SetAll c ((key, val, now) # calls) = SetAll (Set c key val None now) calls"

text \<open>
  The keys that a run of the \<open>Cleanup\<close> loop is expected to remove: those whose
  entry, in the state before the run, has an expiry time before the clock reading at
  which the loop examines it.
\<close>

definition expiredAt :: "Cache \<Rightarrow> string \<times> time \<Rightarrow> bool" where
  "expiredAt c p =
     (case data c (fst p) of None \<Rightarrow> False | Some a \<Rightarrow> is_expired (heap c a) (snd p))"

definition expiredKeys :: "Cache \<Rightarrow> (string \<times> time) list \<Rightarrow> string list" where
  "expiredKeys c sched = map fst (filter (expiredAt c) sched)"



text \<open>
  The constructor as the specification words it, for comparison with \<open>NewCache\<close>:
  a capacity of zero is rejected with a configuration error.
\<close>

datatype config_error = ZeroCapacity

definition NewCache_spec :: "int \<Rightarrow> config_error + Cache" where
  "NewCache_spec n = (if n = 0 then Inl ZeroCapacity else Inr (NewCache n))"

section \<open>The invariant is kept\<close>

lemma cache_inv_NewCache: "cache_inv (NewCache n)"
  by (simp add: cache_inv_def NewCache_def)

lemma cache_inv_Clear: "cache_inv (Clear c)"
  by (simp add: cache_inv_def Clear_def)

lemma removeEntry_fields [simp]:
  "lru (removeEntry c a) = remove1 a (lru c)"
  "data (removeEntry c a) = (data c)(Key (heap c a) := None)"
  "currentSize (removeEntry c a) = currentSize c - 1"
  "heap (removeEntry c a) = heap c"
  "nextAddr (removeEntry c a) = nextAddr c"
  "maxSize (removeEntry c a) = maxSize c"
  by (simp_all add: removeEntry_def Remove_def)

lemma cache_inv_removeEntry:
  assumes inv: "cache_inv c" and a: "a \<in> set (lru c)"
  shows "cache_inv (removeEntry c a)"
proof -
  let ?k = "Key (heap c a)"
  from inv have d: "distinct (lru c)"
    and fwd: "\<And>k b. data c k = Some b \<Longrightarrow> b \<in> set (lru c) \<and> Key (heap c b) = k"
    and bwd: "\<And>b. b \<in> set (lru c) \<Longrightarrow> data c (Key (heap c b)) = Some b"
    and sz: "currentSize c = int (length (lru c))"
    and fr: "\<And>b. b \<in> set (lru c) \<Longrightarrow> b < nextAddr c"
    by (auto simp: cache_inv_def)
  have s: "set (remove1 a (lru c)) = set (lru c) - {a}"
    using d by simp
  have 1: "distinct (remove1 a (lru c))" using d by simp
  have 2: "b \<in> set (remove1 a (lru c)) \<and> Key (heap c b) = k"
    if "((data c)(?k := None)) k = Some b" for k b
  proof -
    from that have kk: "k \<noteq> ?k" and db: "data c k = Some b"
      by (auto split: if_splits)
    from fwd [OF db] kk have "b \<noteq> a" by auto
    with fwd [OF db] s show ?thesis by simp
  qed
  have 3: "((data c)(?k := None)) (Key (heap c b)) = Some b"
    if "b \<in> set (remove1 a (lru c))" for b
  proof -
    from that s have b: "b \<in> set (lru c)" and ne: "b \<noteq> a" by auto
    have "Key (heap c b) \<noteq> ?k"
    proof
      assume eq: "Key (heap c b) = ?k"
      have "Some b = data c (Key (heap c b))" using bwd [OF b] by (rule sym)
      also have "\<dots> = data c ?k" by (rule arg_cong [OF eq])
      also have "\<dots> = Some a" by (rule bwd [OF a])
      finally show False using ne by simp
    qed
    with bwd [OF b] show ?thesis by simp
  qed
  have 4: "currentSize c - 1 = int (length (remove1 a (lru c)))"
  proof -
    from a have "0 < length (lru c)" by (rule length_pos_if_in_set)
    then obtain n where n: "length (lru c) = Suc n" by (cases "length (lru c)") auto
    with a sz show ?thesis by (simp add: length_remove1)
  qed
  have 5: "b < nextAddr c" if "b \<in> set (remove1 a (lru c))" for b
    using that s fr by simp
  show ?thesis
    unfolding cache_inv_def removeEntry_fields
    using 1 2 3 4 5 by blast
qed

lemma cache_inv_lookup:
  "cache_inv c \<Longrightarrow> data c k = Some a \<Longrightarrow> a \<in> set (lru c) \<and> Key (heap c a) = k"
  by (simp add: cache_inv_def)


lemma cache_invI:
  assumes "distinct (lru c)"
    and "\<And>k a. data c k = Some a \<Longrightarrow> a \<in> set (lru c) \<and> Key (heap c a) = k"
    and "\<And>a. a \<in> set (lru c) \<Longrightarrow> data c (Key (heap c a)) = Some a"
    and "currentSize c = int (length (lru c))"
    and "\<And>a. a \<in> set (lru c) \<Longrightarrow> a < nextAddr c"
  shows "cache_inv c"
  unfolding cache_inv_def using assms by blast

lemma cache_inv_distinct: "cache_inv c \<Longrightarrow> distinct (lru c)"
  by (simp add: cache_inv_def)

lemma cache_inv_listed: "cache_inv c \<Longrightarrow> data c k = Some a \<Longrightarrow> a \<in> set (lru c)"
  by (simp add: cache_inv_def)

lemma cache_inv_key: "cache_inv c \<Longrightarrow> data c k = Some a \<Longrightarrow> Key (heap c a) = k"
  by (simp add: cache_inv_def)

lemma cache_inv_indexed:
  "cache_inv c \<Longrightarrow> a \<in> set (lru c) \<Longrightarrow> data c (Key (heap c a)) = Some a"
  by (simp add: cache_inv_def)

lemma cache_inv_size: "cache_inv c \<Longrightarrow> currentSize c = int (length (lru c))"
  by (simp add: cache_inv_def)

lemma cache_inv_fresh: "cache_inv c \<Longrightarrow> a \<in> set (lru c) \<Longrightarrow> a < nextAddr c"
  by (simp add: cache_inv_def)

lemma insertEntry_fields [simp]:
  "lru (insertEntry c key e) = nextAddr c # lru c"
  "data (insertEntry c key e) = (data c)(key \<mapsto> nextAddr c)"
  "currentSize (insertEntry c key e) = currentSize c + 1"
  "heap (insertEntry c key e) = (heap c)(nextAddr c := e)"
  "nextAddr (insertEntry c key e) = Suc (nextAddr c)"
  "maxSize (insertEntry c key e) = maxSize c"
  by (simp_all add: insertEntry_def PushFront_def)

lemma cache_inv_insertEntry:
  assumes inv: "cache_inv c" and absent: "data c key = None" and key: "Key e = key"
  shows "cache_inv (insertEntry c key e)"
proof (rule cache_invI)
  let ?n = "nextAddr c"
  have new: "?n \<notin> set (lru c)"
    using cache_inv_fresh [OF inv, of ?n] by auto
  show "distinct (lru (insertEntry c key e))"
    using new cache_inv_distinct [OF inv] by simp
  show "currentSize (insertEntry c key e) = int (length (lru (insertEntry c key e)))"
    using cache_inv_size [OF inv] by simp
  show "a < nextAddr (insertEntry c key e)" if "a \<in> set (lru (insertEntry c key e))" for a
    using that cache_inv_fresh [OF inv, of a] by auto
  show "a \<in> set (lru (insertEntry c key e)) \<and> Key (heap (insertEntry c key e) a) = k"
    if "data (insertEntry c key e) k = Some a" for k a
  proof (cases "k = key")
    case True
    with that have "a = ?n" by simp
    with True key show ?thesis by simp
  next
    case False
    with that have d: "data c k = Some a" by simp
    have "a \<noteq> ?n" using cache_inv_listed [OF inv d] new by auto
    then show ?thesis
      using cache_inv_listed [OF inv d] cache_inv_key [OF inv d] by simp
  qed
  show "data (insertEntry c key e) (Key (heap (insertEntry c key e) a)) = Some a"
    if "a \<in> set (lru (insertEntry c key e))" for a
  proof (cases "a = ?n")
    case True
    then show ?thesis using key by simp
  next
    case False
    with that have a: "a \<in> set (lru c)" by simp
    have "Key (heap c a) \<noteq> key"
      using cache_inv_indexed [OF inv a] absent by auto
    then show ?thesis
      using False cache_inv_indexed [OF inv a] by simp
  qed
qed


lemma removeExisting_absent:
  "cache_inv c \<Longrightarrow> data (removeExisting c key) key = None"
  by (cases "data c key") (simp_all add: removeExisting_def cache_inv_key)

lemma cache_inv_removeExisting: "cache_inv c \<Longrightarrow> cache_inv (removeExisting c key)"
  by (cases "data c key")
     (simp_all add: removeExisting_def cache_inv_removeEntry cache_inv_listed)

lemma cache_inv_evictLRU: "cache_inv c \<Longrightarrow> cache_inv (evictLRU c)"
proof (cases "lru c = []")
  case True
  assume "cache_inv c"
  with True show ?thesis by (simp add: evictLRU_def)
next
  case False
  assume inv: "cache_inv c"
  from False have "last (lru c) \<in> set (lru c)" by simp
  from cache_inv_removeEntry [OF inv this] False show ?thesis
    by (cases "lru c") (simp_all add: evictLRU_def)
qed

lemma evictLoop_step:
  "maxSize c < currentSize c \<Longrightarrow> lru c \<noteq> [] \<Longrightarrow> evictLoop c = evictLoop (evictLRU c)"
  by (subst evictLoop.simps) simp

lemma evictLoop_stop:
  "\<not> (maxSize c < currentSize c \<and> lru c \<noteq> []) \<Longrightarrow> evictLoop c = c"
  by (subst evictLoop.simps) auto

lemma cache_inv_evictLoop: "cache_inv c \<Longrightarrow> cache_inv (evictLoop c)"
proof (induction c rule: evictLoop.induct)
  case (1 c)
  show ?case
  proof (cases "maxSize c < currentSize c \<and> lru c \<noteq> []")
    case True
    then have "cache_inv (evictLoop (evictLRU c))"
      using "1.IH" cache_inv_evictLRU [OF "1.prems"] by simp
    with True show ?thesis by (simp add: evictLoop_step)
  next
    case False
    from evictLoop_stop [OF False] "1.prems" show ?thesis by simp
  qed
qed

lemma cache_inv_Set: "cache_inv c \<Longrightarrow> cache_inv (Set c key val ttl now)"
  unfolding Set_def
  by (intro cache_inv_evictLoop cache_inv_insertEntry cache_inv_removeExisting
        removeExisting_absent) (simp_all add: newEntry_def)

lemma cache_inv_Delete: "cache_inv c \<Longrightarrow> cache_inv (snd (Delete c key))"
  by (cases "data c key")
     (simp_all add: Delete_def cache_inv_removeEntry cache_inv_listed)

lemma cache_inv_touch:
  assumes inv: "cache_inv c" and a: "a \<in> set (lru c)" and key: "Key e = Key (heap c a)"
  shows "cache_inv (c\<lparr>heap := (heap c)(a := e), lru := MoveToFront a (lru c)\<rparr>)"
proof (rule cache_invI)
  let ?c = "c\<lparr>heap := (heap c)(a := e), lru := MoveToFront a (lru c)\<rparr>"
  have l: "lru ?c = a # remove1 a (lru c)" using a by (simp add: MoveToFront_def)
  have s: "set (lru ?c) = set (lru c)"
    using a cache_inv_distinct [OF inv] by (auto simp: l)
  have k: "Key (heap ?c b) = Key (heap c b)" for b using key by simp
  show "distinct (lru ?c)" using cache_inv_distinct [OF inv] by (simp add: l)
  show "currentSize ?c = int (length (lru ?c))"
  proof -
    from a have "0 < length (lru c)" by (rule length_pos_if_in_set)
    then show ?thesis using a cache_inv_size [OF inv] by (simp add: l length_remove1)
  qed
  show "b < nextAddr ?c" if "b \<in> set (lru ?c)" for b
    using that cache_inv_fresh [OF inv, of b] unfolding s by simp
  show "b \<in> set (lru ?c) \<and> Key (heap ?c b) = k" if "data ?c k = Some b" for k b
  proof -
    from that have "data c k = Some b" by simp
    from cache_inv_listed [OF inv this] cache_inv_key [OF inv this]
    show ?thesis unfolding s k by simp
  qed
  show "data ?c (Key (heap ?c b)) = Some b" if "b \<in> set (lru ?c)" for b
  proof -
    from that have "b \<in> set (lru c)" unfolding s .
    from cache_inv_indexed [OF inv this] show ?thesis unfolding k by simp
  qed
qed

lemma cache_inv_Get: "cache_inv c \<Longrightarrow> cache_inv (snd (Get c key now))"
  by (cases "data c key")
     (simp_all add: Get_def cache_inv_removeEntry cache_inv_listed cache_inv_touch)


lemma second_delete_noop:
  assumes "cache_inv c" and "data c key = Some a"
  shows "(removeEntry c a)\<lparr>data := (data (removeEntry c a))(key := None)\<rparr> = removeEntry c a"
proof -
  have "Key (heap c a) = key" using assms by (rule cache_inv_key)
  then have "(data (removeEntry c a))(key := None) = data (removeEntry c a)" by simp
  then show ?thesis by simp
qed

lemma CleanupLoop_expired:
  assumes "cache_inv c" and "data c key = Some a" and "is_expired (heap c a) now"
  shows "CleanupLoop ((key, now) # rest) c n = CleanupLoop rest (removeEntry c a) (n + 1)"
  using assms(2,3) second_delete_noop [OF assms(1,2)] by (simp del: removeEntry_fields)

lemma CleanupLoop_kept:
  assumes "data c key = Some a" and "\<not> is_expired (heap c a) now"
  shows "CleanupLoop ((key, now) # rest) c n = CleanupLoop rest c n"
  using assms by simp

lemma CleanupLoop_absent:
  assumes "data c key = None"
  shows "CleanupLoop ((key, now) # rest) c n = CleanupLoop rest c n"
  using assms by simp

lemma cache_inv_CleanupLoop:
  "cache_inv c \<Longrightarrow> cache_inv (snd (CleanupLoop sched c n))"
proof (induction sched arbitrary: c n)
  case Nil
  then show ?case by simp
next
  case (Cons p sched)
  obtain key now where p: "p = (key, now)" by (cases p)
  show ?case
  proof (cases "data c key")
    case None
    with Cons p show ?thesis by (simp only: CleanupLoop_absent)
  next
    case (Some a)
    show ?thesis
    proof (cases "is_expired (heap c a) now")
      case True
      have "cache_inv (removeEntry c a)"
        using Cons.prems Some by (simp add: cache_inv_removeEntry cache_inv_listed)
      then have "cache_inv (snd (CleanupLoop sched (removeEntry c a) (n + 1)))"
        by (rule Cons.IH)
      then show ?thesis
        unfolding p using CleanupLoop_expired [OF Cons.prems Some True] by simp
    next
      case False
      have "cache_inv (snd (CleanupLoop sched c n))" using Cons.prems by (rule Cons.IH)
      then show ?thesis
        unfolding p using CleanupLoop_kept [OF Some False] by simp
    qed
  qed
qed

lemma cache_inv_Cleanup: "cache_inv c \<Longrightarrow> cache_inv (snd (Cleanup c sched))"
  by (simp add: Cleanup_def cache_inv_CleanupLoop)

lemma cache_inv_dom:
  assumes inv: "cache_inv c"
  shows "dom (data c) = (\<lambda>a. Key (heap c a)) ` set (lru c)"
proof
  show "dom (data c) \<subseteq> (\<lambda>a. Key (heap c a)) ` set (lru c)"
  proof
    fix k assume "k \<in> dom (data c)"
    then obtain a where d: "data c k = Some a" by auto
    from cache_inv_listed [OF inv d] cache_inv_key [OF inv d]
    show "k \<in> (\<lambda>a. Key (heap c a)) ` set (lru c)" by auto
  qed
  show "(\<lambda>a. Key (heap c a)) ` set (lru c) \<subseteq> dom (data c)"
    using cache_inv_indexed [OF inv] by auto
qed

lemma cache_inv_ran:
  assumes inv: "cache_inv c"
  shows "ran (data c) = set (lru c)"
proof
  show "ran (data c) \<subseteq> set (lru c)"
    using cache_inv_listed [OF inv] by (auto simp: ran_def)
  show "set (lru c) \<subseteq> ran (data c)"
    using cache_inv_indexed [OF inv] by (auto simp: ran_def)
qed

lemma cache_inv_keys_inj:
  assumes inv: "cache_inv c"
  shows "inj_on (\<lambda>a. Key (heap c a)) (set (lru c))"
proof (rule inj_onI)
  fix a b assume a: "a \<in> set (lru c)" and b: "b \<in> set (lru c)"
    and eq: "Key (heap c a) = Key (heap c b)"
  have "Some a = data c (Key (heap c a))" using cache_inv_indexed [OF inv a] by (rule sym)
  also have "\<dots> = data c (Key (heap c b))" by (rule arg_cong [OF eq])
  also have "\<dots> = Some b" by (rule cache_inv_indexed [OF inv b])
  finally show "a = b" by simp
qed

lemma cache_inv_card:
  assumes inv: "cache_inv c"
  shows "card (dom (data c)) = length (lru c)"
proof -
  have "card (dom (data c)) = card (set (lru c))"
    unfolding cache_inv_dom [OF inv] by (rule card_image [OF cache_inv_keys_inj [OF inv]])
  also have "\<dots> = length (lru c)"
    using cache_inv_distinct [OF inv] by (rule distinct_card)
  finally show ?thesis .
qed


lemma removeEntry_effect:
  assumes inv: "cache_inv c" and a: "a \<in> set (lru c)"
  shows "set (lru (removeEntry c a)) = set (lru c) - {a}"
    and "dom (data (removeEntry c a)) = dom (data c) - {Key (heap c a)}"
    and "currentSize (removeEntry c a) = currentSize c - 1"
  using cache_inv_distinct [OF inv] by simp_all

lemma Get_expired_state:
  "data c key = Some a \<Longrightarrow> is_expired (heap c a) now \<Longrightarrow> snd (Get c key now) = removeEntry c a"
  by (simp add: Get_def)

lemma Delete_present_state: "data c key = Some a \<Longrightarrow> snd (Delete c key) = removeEntry c a"
  by (simp add: Delete_def)

lemma evictLRU_nonempty: "lru c \<noteq> [] \<Longrightarrow> evictLRU c = removeEntry c (last (lru c))"
  by (cases "lru c") (simp_all add: evictLRU_def)

text \<open>
  Claim C1. A new cache satisfies the invariant, and \<open>Get\<close>, \<open>Set\<close>, \<open>Delete\<close>,
  \<open>Clear\<close> and \<open>Cleanup\<close> keep it. Under the invariant the entries of the map are
  the elements of the list, one element each, their keys are the keys of the map, and
  \<open>currentSize\<close> is the length of the list and the number of keys. Every removal goes
  through \<open>removeEntry\<close>, which takes the entry out of the list and its key out of the
  map and subtracts one from the size: the expired branch of \<open>Get\<close>, \<open>Delete\<close>,
  \<open>evictLRU\<close>, and a step of the \<open>Cleanup\<close> loop, whose second \<^verbatim>\<open>delete\<close> of the
  key changes nothing.
\<close>

theorem index_and_recency_list_stay_in_step:
  assumes inv: "cache_inv c"
  shows "cache_inv (NewCache n)
    \<and> cache_inv (snd (Get c key now))
    \<and> cache_inv (Set c key val ttl now)
    \<and> cache_inv (snd (Delete c key))
    \<and> cache_inv (Clear c)
    \<and> cache_inv (snd (Cleanup c sched))
    \<and> distinct (lru c)
    \<and> ran (data c) = set (lru c)
    \<and> dom (data c) = (\<lambda>a. Key (heap c a)) ` set (lru c)
    \<and> inj_on (\<lambda>a. Key (heap c a)) (set (lru c))
    \<and> currentSize c = int (length (lru c))
    \<and> currentSize c = int (card (dom (data c)))
    \<and> (\<forall>a. a \<in> set (lru c) \<longrightarrow>
          set (lru (removeEntry c a)) = set (lru c) - {a}
          \<and> dom (data (removeEntry c a)) = dom (data c) - {Key (heap c a)}
          \<and> currentSize (removeEntry c a) = currentSize c - 1)
    \<and> (\<forall>a. data c key = Some a \<and> is_expired (heap c a) now \<longrightarrow>
          snd (Get c key now) = removeEntry c a)
    \<and> (\<forall>a. data c key = Some a \<longrightarrow> snd (Delete c key) = removeEntry c a)
    \<and> (lru c \<noteq> [] \<longrightarrow> evictLRU c = removeEntry c (last (lru c)))
    \<and> (\<forall>a. data c key = Some a \<and> is_expired (heap c a) now \<longrightarrow>
          CleanupLoop ((key, now) # rest) c m = CleanupLoop rest (removeEntry c a) (m + 1))"
proof -
  note ops = cache_inv_NewCache cache_inv_Get [OF inv] cache_inv_Set [OF inv]
    cache_inv_Delete [OF inv] cache_inv_Clear cache_inv_Cleanup [OF inv]
  note shape = cache_inv_distinct [OF inv] cache_inv_ran [OF inv] cache_inv_dom [OF inv]
    cache_inv_keys_inj [OF inv] cache_inv_size [OF inv]
  have size: "currentSize c = int (card (dom (data c)))"
    using cache_inv_size [OF inv] cache_inv_card [OF inv] by simp
  have removal: "\<forall>a. a \<in> set (lru c) \<longrightarrow>
          set (lru (removeEntry c a)) = set (lru c) - {a}
          \<and> dom (data (removeEntry c a)) = dom (data c) - {Key (heap c a)}
          \<and> currentSize (removeEntry c a) = currentSize c - 1"
  proof (intro allI impI)
    fix a assume a: "a \<in> set (lru c)"
    show "set (lru (removeEntry c a)) = set (lru c) - {a}
          \<and> dom (data (removeEntry c a)) = dom (data c) - {Key (heap c a)}
          \<and> currentSize (removeEntry c a) = currentSize c - 1"
      by (intro conjI removeEntry_effect [OF inv a])
  qed
  have p1: "\<forall>a. data c key = Some a \<and> is_expired (heap c a) now \<longrightarrow>
          snd (Get c key now) = removeEntry c a"
    by (intro allI impI, elim conjE) (rule Get_expired_state)
  have p2: "\<forall>a. data c key = Some a \<longrightarrow> snd (Delete c key) = removeEntry c a"
    by (intro allI impI) (rule Delete_present_state)
  have p3: "lru c \<noteq> [] \<longrightarrow> evictLRU c = removeEntry c (last (lru c))"
    by (intro impI) (rule evictLRU_nonempty)
  have p4: "\<forall>a. data c key = Some a \<and> is_expired (heap c a) now \<longrightarrow>
          CleanupLoop ((key, now) # rest) c m = CleanupLoop rest (removeEntry c a) (m + 1)"
    by (intro allI impI, elim conjE) (rule CleanupLoop_expired [OF inv])
  note paths = p1 p2 p3 p4
  show ?thesis
    by (intro conjI ops shape size removal paths)
qed

theorem index_and_recency_list_stay_in_step_witness:
  "cache_inv (Set (NewCache 2) ''a'' [1] (Some 5) 0)
   \<and> cache_inv (snd (Get (Set (NewCache 2) ''a'' [1] (Some 5) 0) ''a'' 9))
   \<and> cache_inv (Set (Set (NewCache 2) ''a'' [1] (Some 5) 0) ''a'' [2] None 9)
   \<and> cache_inv (snd (Delete (Set (NewCache 2) ''a'' [1] (Some 5) 0) ''a''))
   \<and> cache_inv (snd (Cleanup (Set (NewCache 2) ''a'' [1] (Some 5) 0) [(''a'', 9)]))
   \<and> ran (data (Set (NewCache 2) ''a'' [1] (Some 5) 0)) = set (lru (Set (NewCache 2) ''a'' [1] (Some 5) 0))
   \<and> currentSize (Set (NewCache 2) ''a'' [1] (Some 5) 0)
       = int (card (dom (data (Set (NewCache 2) ''a'' [1] (Some 5) 0))))"
proof -
  have h: "cache_inv (Set (NewCache 2) ''a'' [1] (Some 5) 0)"
    by (intro cache_inv_Set cache_inv_NewCache)
  show ?thesis
    using index_and_recency_list_stay_in_step
            [OF h, of 0 "''a''" 9 "[2]" None "[(''a'', 9)]" "[]" 0] h
    by (elim conjE) (intro conjI; assumption)
qed

section \<open>Capacity\<close>

lemma maxSize_evictLRU [simp]: "maxSize (evictLRU c) = maxSize c"
  by (cases "lru c") (simp_all add: evictLRU_def)

lemma maxSize_evictLoop [simp]: "maxSize (evictLoop c) = maxSize c"
proof (induction c rule: evictLoop.induct)
  case (1 c)
  show ?case
  proof (cases "maxSize c < currentSize c \<and> lru c \<noteq> []")
    case True
    then have "maxSize (evictLoop (evictLRU c)) = maxSize (evictLRU c)"
      using "1.IH" by simp
    with True show ?thesis by (simp add: evictLoop_step)
  next
    case False
    from evictLoop_stop [OF False] show ?thesis by simp
  qed
qed

lemma maxSize_removeExisting [simp]: "maxSize (removeExisting c key) = maxSize c"
  by (cases "data c key") (simp_all add: removeExisting_def)

lemma maxSize_Set [simp]: "maxSize (Set c key val ttl now) = maxSize c"
  by (simp add: Set_def)

lemma maxSize_Get [simp]: "maxSize (snd (Get c key now)) = maxSize c"
  by (cases "data c key") (simp_all add: Get_def)

lemma maxSize_Delete [simp]: "maxSize (snd (Delete c key)) = maxSize c"
  by (cases "data c key") (simp_all add: Delete_def)

lemma maxSize_Clear [simp]: "maxSize (Clear c) = maxSize c"
  by (simp add: Clear_def)

lemma maxSize_CleanupLoop [simp]: "maxSize (snd (CleanupLoop sched c n)) = maxSize c"
proof (induction sched arbitrary: c n)
  case Nil
  show ?case by simp
next
  case (Cons p sched)
  obtain key now where p: "p = (key, now)" by (cases p)
  show ?case
    unfolding p by (cases "data c key") (simp_all add: Cons.IH)
qed

lemma maxSize_Cleanup [simp]: "maxSize (snd (Cleanup c sched)) = maxSize c"
  by (simp add: Cleanup_def)

lemma evictLoop_exit:
  "\<not> (maxSize (evictLoop c) < currentSize (evictLoop c) \<and> lru (evictLoop c) \<noteq> [])"
proof (induction c rule: evictLoop.induct)
  case (1 c)
  show ?case
  proof (cases "maxSize c < currentSize c \<and> lru c \<noteq> []")
    case True
    with "1.IH" show ?thesis by (simp add: evictLoop_step)
  next
    case False
    from evictLoop_stop [OF False] False show ?thesis by simp
  qed
qed

lemma evictLoop_bounded:
  assumes inv: "cache_inv c" and cap: "0 \<le> maxSize c"
  shows "currentSize (evictLoop c) \<le> maxSize c"
proof (cases "lru (evictLoop c) = []")
  case True
  have "currentSize (evictLoop c) = int (length (lru (evictLoop c)))"
    using cache_inv_evictLoop [OF inv] by (rule cache_inv_size)
  with True cap show ?thesis by simp
next
  case False
  with evictLoop_exit [of c] show ?thesis by simp
qed

lemma Set_bounded:
  assumes inv: "cache_inv c" and cap: "0 \<le> maxSize c"
  shows "currentSize (Set c key val ttl now) \<le> maxSize c"
proof -
  let ?c = "insertEntry (removeExisting c key) key (newEntry key val ttl now)"
  have "cache_inv ?c"
    by (intro cache_inv_insertEntry cache_inv_removeExisting removeExisting_absent inv)
       (simp add: newEntry_def)
  moreover have "0 \<le> maxSize ?c" using cap by simp
  ultimately have "currentSize (evictLoop ?c) \<le> maxSize ?c" by (rule evictLoop_bounded)
  then show ?thesis by (simp add: Set_def)
qed



section \<open>Lazy expiration in Get\<close>

text \<open>
  Claim C3. When the entry of a key has an expiry time that lies before the clock reading
  of the call, \<open>Get\<close> reports not-found and returns the state \<open>removeEntry\<close> leaves:
  the key is out of the map, the entry out of the list, nothing else is touched, and the
  size is one less. No run of \<open>Cleanup\<close> is involved. Whenever \<open>Get\<close> reports
  found, the entry it read had not expired and the value is that entry's.
\<close>

theorem Get_drops_expired_entry:
  assumes inv: "cache_inv c"
    and present: "data c key = Some a"
    and ttl: "ExpiresAt (heap c a) = Some t"
    and passed: "t < now"
  shows "fst (Get c key now) = ([], False)
    \<and> snd (Get c key now) = removeEntry c a
    \<and> data (snd (Get c key now)) key = None
    \<and> a \<notin> set (lru (snd (Get c key now)))
    \<and> set (lru (snd (Get c key now))) = set (lru c) - {a}
    \<and> dom (data (snd (Get c key now))) = dom (data c) - {key}
    \<and> currentSize (snd (Get c key now)) = currentSize c - 1
    \<and> (\<forall>c' key' now' v. fst (Get c' key' now') = (v, True) \<longrightarrow>
          (\<exists>b. data c' key' = Some b \<and> \<not> is_expired (heap c' b) now'
               \<and> v = Value (heap c' b)))"
proof -
  have ex: "is_expired (heap c a) now"
    using ttl passed by (simp add: is_expired_def)
  have k: "Key (heap c a) = key" using inv present by (rule cache_inv_key)
  have l: "a \<in> set (lru c)" using inv present by (rule cache_inv_listed)
  have g: "Get c key now = (([], False), removeEntry c a)"
    using present ex by (simp add: Get_def)
  have never: "\<forall>c' key' now' v. fst (Get c' key' now') = (v, True) \<longrightarrow>
          (\<exists>b. data c' key' = Some b \<and> \<not> is_expired (heap c' b) now'
               \<and> v = Value (heap c' b))"
  proof (intro allI impI)
    fix c' :: Cache and key' now' v
    assume r: "fst (Get c' key' now') = (v, True)"
    show "\<exists>b. data c' key' = Some b \<and> \<not> is_expired (heap c' b) now' \<and> v = Value (heap c' b)"
    proof (cases "data c' key'")
      case None
      with r show ?thesis by (simp add: Get_def)
    next
      case (Some b)
      with r show ?thesis by (cases "is_expired (heap c' b) now'") (simp_all add: Get_def)
    qed
  qed
  show ?thesis
    unfolding g using never k l cache_inv_distinct [OF inv] by simp
qed

theorem Get_drops_expired_entry_witness:
  "cache_inv (Set (NewCache 2) ''k'' [7] (Some 1) 0)
   \<and> data (Set (NewCache 2) ''k'' [7] (Some 1) 0) ''k'' = Some 0
   \<and> ExpiresAt (heap (Set (NewCache 2) ''k'' [7] (Some 1) 0) 0) = Some 1
   \<and> (1::int) < 2
   \<and> fst (Get (Set (NewCache 2) ''k'' [7] (Some 1) 0) ''k'' 2) = ([], False)
   \<and> data (snd (Get (Set (NewCache 2) ''k'' [7] (Some 1) 0) ''k'' 2)) ''k'' = None"
proof -
  let ?c = "Set (NewCache 2) ''k'' [7] (Some 1) 0"
  have h: "cache_inv ?c" by (intro cache_inv_Set cache_inv_NewCache)
  have d: "data ?c ''k'' = Some 0"
    by (simp add: Set_def NewCache_def removeExisting_def newEntry_def evictLoop.simps)
  have e: "ExpiresAt (heap ?c 0) = Some 1"
    by (simp add: Set_def NewCache_def removeExisting_def newEntry_def evictLoop.simps)
  have p: "(1::int) < 2" by simp
  show ?thesis
    using Get_drops_expired_entry [OF h d e p] h d e p by (elim conjE) (intro conjI; assumption)
qed

section \<open>Delete\<close>

text \<open>
  Claim C7. \<open>Delete\<close> returns true and removes the entry from the map and the list
  whenever the map has the key, whatever the entry's expiry time and the clock; it returns
  false and the unchanged state when the map does not have the key. A second
  \<open>Delete\<close> of the same key right after the first returns false.
\<close>

theorem Delete_reports_presence:
  assumes inv: "cache_inv c"
  shows "(\<forall>a. data c key = Some a \<longrightarrow>
            fst (Delete c key) = True
            \<and> snd (Delete c key) = removeEntry c a
            \<and> data (snd (Delete c key)) key = None
            \<and> a \<notin> set (lru (snd (Delete c key)))
            \<and> set (lru (snd (Delete c key))) = set (lru c) - {a}
            \<and> dom (data (snd (Delete c key))) = dom (data c) - {key}
            \<and> fst (Delete (snd (Delete c key)) key) = False)
    \<and> (data c key = None \<longrightarrow> Delete c key = (False, c))
    \<and> (\<forall>a now. data c key = Some a \<and> is_expired (heap c a) now \<longrightarrow>
            fst (Delete c key) = True \<and> data (snd (Delete c key)) key = None)"
proof (intro conjI allI impI)
  assume "data c key = None"
  then show "Delete c key = (False, c)" by (simp add: Delete_def)
next
  fix a now assume "data c key = Some a \<and> is_expired (heap c a) now"
  then have present: "data c key = Some a" by simp
  have k: "Key (heap c a) = key" using inv present by (rule cache_inv_key)
  show "fst (Delete c key) = True" using present by (simp add: Delete_def)
  show "data (snd (Delete c key)) key = None" using present k by (simp add: Delete_def)
next
  fix a assume present: "data c key = Some a"
  have k: "Key (heap c a) = key" using inv present by (rule cache_inv_key)
  have l: "a \<in> set (lru c)" using inv present by (rule cache_inv_listed)
  have d: "Delete c key = (True, removeEntry c a)" using present by (simp add: Delete_def)
  show "fst (Delete c key) = True" by (simp add: d)
  show "snd (Delete c key) = removeEntry c a" by (simp add: d)
  show gone: "data (snd (Delete c key)) key = None" by (simp add: d k)
  show "a \<notin> set (lru (snd (Delete c key)))"
    using cache_inv_distinct [OF inv] by (simp add: d)
  show "set (lru (snd (Delete c key))) = set (lru c) - {a}"
    using cache_inv_distinct [OF inv] by (simp add: d)
  show "dom (data (snd (Delete c key))) = dom (data c) - {key}" by (simp add: d k)
  show "fst (Delete (snd (Delete c key)) key) = False"
    using gone by (simp add: Delete_def)
qed

theorem Delete_reports_presence_witness:
  "cache_inv (Set (NewCache 2) ''k'' [7] (Some 1) 0)
   \<and> fst (Delete (Set (NewCache 2) ''k'' [7] (Some 1) 0) ''k'') = True
   \<and> fst (Delete (snd (Delete (Set (NewCache 2) ''k'' [7] (Some 1) 0) ''k'')) ''k'') = False
   \<and> Delete (Set (NewCache 2) ''k'' [7] (Some 1) 0) ''j''
       = (False, Set (NewCache 2) ''k'' [7] (Some 1) 0)"
proof -
  let ?c = "Set (NewCache 2) ''k'' [7] (Some 1) 0"
  have h: "cache_inv ?c" by (intro cache_inv_Set cache_inv_NewCache)
  have d: "data ?c ''k'' = Some 0"
    by (simp add: Set_def NewCache_def removeExisting_def newEntry_def evictLoop.simps)
  have n: "data ?c ''j'' = None"
    by (simp add: Set_def NewCache_def removeExisting_def newEntry_def evictLoop.simps)
  note present = Delete_reports_presence [OF h, THEN conjunct1, rule_format, OF d]
  note absent = Delete_reports_presence [OF h, THEN conjunct2, THEN conjunct1, rule_format, OF n]
  show ?thesis
    using present absent h by (elim conjE) (intro conjI; assumption)
qed

section \<open>Capacity zero\<close>

lemma cache_inv_empty:
  assumes inv: "cache_inv c" and e: "lru c = []"
  shows "data c = Map.empty"
proof -
  have "dom (data c) = {}" using cache_inv_dom [OF inv] e by simp
  then show ?thesis by simp
qed

lemma Set_on_empty_zero:
  assumes inv: "cache_inv c" and e: "lru c = []" and zero: "maxSize c = 0"
  shows "Set c key val ttl now
         = removeEntry (insertEntry c key (newEntry key val ttl now)) (nextAddr c)"
proof -
  let ?i = "insertEntry c key (newEntry key val ttl now)"
  have d: "data c = Map.empty" using inv e by (rule cache_inv_empty)
  have r: "removeExisting c key = c" by (simp add: removeExisting_def d)
  have s: "currentSize c = 0" using cache_inv_size [OF inv] e by simp
  have "evictLoop ?i = evictLoop (evictLRU ?i)"
    by (rule evictLoop_step) (simp_all add: s zero)
  also have "evictLRU ?i = removeEntry ?i (nextAddr c)"
    by (simp add: evictLRU_def e)
  also have "evictLoop (removeEntry ?i (nextAddr c)) = removeEntry ?i (nextAddr c)"
    by (rule evictLoop_stop) (simp add: e)
  finally show ?thesis by (simp add: Set_def r)
qed

text \<open>
  Claim C10. \<open>NewCache 0\<close> is a consistent cache of capacity zero. On every consistent
  cache of capacity zero \<open>Set\<close> returns with an empty list, an empty map and size zero;
  on an empty one the loop runs once and evicts the entry just inserted. A \<open>Get\<close> of
  the key right after the \<open>Set\<close> reports not-found, and so does every later one.
\<close>

theorem zero_capacity_retains_nothing:
  assumes inv: "cache_inv c" and zero: "maxSize c = 0"
  shows "cache_inv (NewCache 0) \<and> maxSize (NewCache 0) = 0
    \<and> lru (Set c key val ttl now) = []
    \<and> data (Set c key val ttl now) = Map.empty
    \<and> currentSize (Set c key val ttl now) = 0
    \<and> maxSize (Set c key val ttl now) = 0
    \<and> cache_inv (Set c key val ttl now)
    \<and> fst (Get (Set c key val ttl now) key' now') = ([], False)
    \<and> snd (Get (Set c key val ttl now) key' now') = Set c key val ttl now
    \<and> (lru c = [] \<longrightarrow>
          Set c key val ttl now
          = removeEntry (insertEntry c key (newEntry key val ttl now)) (nextAddr c))"
proof -
  let ?s = "Set c key val ttl now"
  have inv': "cache_inv ?s" using inv by (rule cache_inv_Set)
  have "currentSize ?s \<le> 0" using Set_bounded [OF inv, of key val ttl now] zero by simp
  then have l: "lru ?s = []" using cache_inv_size [OF inv'] by simp
  have d: "data ?s = Map.empty" using inv' l by (rule cache_inv_empty)
  have s: "currentSize ?s = 0" using cache_inv_size [OF inv'] l by simp
  have g: "Get ?s key' now' = (([], False), ?s)" by (simp add: Get_def d)
  have once: "lru c = [] \<longrightarrow>
          ?s = removeEntry (insertEntry c key (newEntry key val ttl now)) (nextAddr c)"
    using Set_on_empty_zero [OF inv _ zero] by blast
  have new: "cache_inv (NewCache 0) \<and> maxSize (NewCache 0) = 0"
    by (simp add: cache_inv_NewCache) (simp add: NewCache_def)
  show ?thesis
    using new l d s zero inv' g once by simp
qed

theorem zero_capacity_retains_nothing_witness:
  "cache_inv (NewCache 0) \<and> maxSize (NewCache 0) = 0
   \<and> lru (Set (NewCache 0) ''k'' [7] None 0) = []
   \<and> currentSize (Set (NewCache 0) ''k'' [7] None 0) = 0
   \<and> fst (Get (Set (NewCache 0) ''k'' [7] None 0) ''k'' 0) = ([], False)"
proof -
  have h: "cache_inv (NewCache 0)" by (rule cache_inv_NewCache)
  have z: "maxSize (NewCache 0) = 0" by (simp add: NewCache_def)
  show ?thesis
    using zero_capacity_retains_nothing [OF h z, of "''k''" "[7]" None 0 "''k''" 0]
    by (elim conjE) (intro conjI; assumption)
qed

section \<open>Construction\<close>

text \<open>
  Claim C8 says that a capacity of zero is rejected when the cache is constructed, as
  \<open>NewCache_spec\<close> does. \<open>NewCache\<close> has no error result and no check: for the
  capacity zero it returns an empty cache of capacity zero, where the specification's
  constructor returns the error.
\<close>

theorem NewCache_zero_is_accepted:
  "NewCache_spec 0 = Inl ZeroCapacity
   \<and> Inr (NewCache 0) \<noteq> NewCache_spec 0
   \<and> maxSize (NewCache 0) = 0 \<and> currentSize (NewCache 0) = 0 \<and> lru (NewCache 0) = []
   \<and> data (NewCache 0) ''k'' = None"
  by (simp add: NewCache_spec_def NewCache_def)

text \<open>
  Claim C8, amended. \<open>NewCache\<close> accepts every capacity, zero and the negative ones
  too: the result is the empty, consistent cache whose \<open>maxSize\<close> is the argument.
\<close>

theorem NewCache_accepts_every_capacity:
  "maxSize (NewCache n) = n \<and> currentSize (NewCache n) = 0 \<and> lru (NewCache n) = []
   \<and> data (NewCache n) = Map.empty \<and> cache_inv (NewCache n)"
proof -
  have "cache_inv (NewCache n)" by (rule cache_inv_NewCache)
  then show ?thesis by (simp add: NewCache_def)
qed

theorem NewCache_accepts_every_capacity_witness:
  "maxSize (NewCache 0) = 0 \<and> maxSize (NewCache (- 3)) = - 3
   \<and> cache_inv (NewCache 0) \<and> cache_inv (NewCache (- 3))"
  using NewCache_accepts_every_capacity [of 0] NewCache_accepts_every_capacity [of "- 3"]
  by (elim conjE) (intro conjI; assumption)

section \<open>What the eviction loop leaves\<close>

lemma heap_evictLRU [simp]: "heap (evictLRU c) = heap c"
  by (cases "lru c") (simp_all add: evictLRU_def)

lemma nextAddr_evictLRU [simp]: "nextAddr (evictLRU c) = nextAddr c"
  by (cases "lru c") (simp_all add: evictLRU_def)

lemma lru_evictLRU:
  assumes inv: "cache_inv c"
  shows "lru (evictLRU c) = butlast (lru c)"
proof (cases "lru c = []")
  case True
  then show ?thesis by (simp add: evictLRU_def)
next
  case False
  then obtain xs x where l: "lru c = xs @ [x]" by (cases "lru c" rule: rev_cases) auto
  have "x \<notin> set xs" using cache_inv_distinct [OF inv] l by simp
  then have "remove1 x (xs @ [x]) = xs" by (simp add: remove1_append)
  then show ?thesis using False l by (simp add: evictLRU_nonempty)
qed

lemma data_evictLRU:
  "lru c \<noteq> [] \<Longrightarrow> data (evictLRU c) = (data c)(Key (heap c (last (lru c))) := None)"
  by (simp add: evictLRU_nonempty)

lemma evictLoop_result:
  assumes "cache_inv c"
  shows "lru (evictLoop c) = take (nat (maxSize c)) (lru c)
    \<and> heap (evictLoop c) = heap c
    \<and> nextAddr (evictLoop c) = nextAddr c
    \<and> data (evictLoop c)
        = data c |` ((\<lambda>a. Key (heap c a)) ` set (take (nat (maxSize c)) (lru c)))"
  using assms
proof (induction c rule: evictLoop.induct)
  case (1 c)
  note inv = "1.prems"
  let ?n = "nat (maxSize c)"
  let ?K = "\<lambda>xs. (\<lambda>a. Key (heap c a)) ` set xs"
  have sz: "currentSize c = int (length (lru c))" using inv by (rule cache_inv_size)
  show ?case
  proof (cases "maxSize c < currentSize c \<and> lru c \<noteq> []")
    case False
    then have all: "take ?n (lru c) = lru c" using sz by auto
    have "data c |` ?K (lru c) = data c"
    proof
      fix k show "(data c |` ?K (lru c)) k = data c k"
      proof (cases "data c k")
        case None
        then show ?thesis by (simp add: restrict_map_def)
      next
        case (Some a)
        have "k \<in> dom (data c)" using Some by auto
        then have "k \<in> ?K (lru c)" unfolding cache_inv_dom [OF inv] .
        then show ?thesis by (simp add: restrict_map_def)
      qed
    qed
    then show ?thesis unfolding evictLoop_stop [OF False] all by simp
  next
    case True
    then have ne: "lru c \<noteq> []" and over: "maxSize c < currentSize c" by simp_all
    let ?c' = "evictLRU c"
    have inv': "cache_inv ?c'" using inv by (rule cache_inv_evictLRU)
    have IH: "lru (evictLoop ?c') = take ?n (lru ?c')
      \<and> heap (evictLoop ?c') = heap c
      \<and> nextAddr (evictLoop ?c') = nextAddr c
      \<and> data (evictLoop ?c') = data ?c' |` ?K (take ?n (lru ?c'))"
    proof -
      from True have "maxSize c < currentSize c \<and> 0 < length (lru c)" by simp
      from "1.IH" [OF this inv'] show ?thesis by simp
    qed
    have pos: "0 < length (lru c)" using ne by simp
    have lt: "?n < length (lru c)" using over sz pos by linarith
    have tk: "take ?n (lru ?c') = take ?n (lru c)"
      unfolding lru_evictLRU [OF inv] using lt by (simp add: take_butlast)
    let ?x = "last (lru c)"
    have xin: "?x \<in> set (lru c)" using ne by simp
    have xnot: "?x \<notin> set (take ?n (lru c))"
    proof -
      have "lru c = butlast (lru c) @ [?x]" using ne by simp
      moreover have "distinct (lru c)" using inv by (rule cache_inv_distinct)
      ultimately have "?x \<notin> set (butlast (lru c))"
        by (metis distinct_append disjoint_iff list.set_intros(1))
      moreover have "set (take ?n (lru c)) \<subseteq> set (butlast (lru c))"
        using tk [symmetric] unfolding lru_evictLRU [OF inv] by (simp add: set_take_subset)
      ultimately show ?thesis by auto
    qed
    have knot: "Key (heap c ?x) \<notin> ?K (take ?n (lru c))"
    proof
      assume "Key (heap c ?x) \<in> ?K (take ?n (lru c))"
      then obtain b where b: "b \<in> set (take ?n (lru c))" and e: "Key (heap c ?x) = Key (heap c b)"
        by auto
      have bin: "b \<in> set (lru c)" using b by (rule in_set_takeD)
      have "?x = b"
        by (rule inj_onD [OF cache_inv_keys_inj [OF inv] e xin bin])
      with b xnot show False by simp
    qed
    have dt: "data ?c' |` ?K (take ?n (lru c)) = data c |` ?K (take ?n (lru c))"
    proof
      fix k
      show "(data ?c' |` ?K (take ?n (lru c))) k = (data c |` ?K (take ?n (lru c))) k"
        using knot by (cases "k = Key (heap c ?x)") (simp_all add: data_evictLRU [OF ne] restrict_map_def)
    qed
    show ?thesis
      unfolding evictLoop_step [OF over ne] using IH unfolding tk dt by simp
  qed
qed

section \<open>Overwriting a key\<close>















section \<open>Least recently used first\<close>

lemma lru_keys_dom: "cache_inv c \<Longrightarrow> set (lru_keys c) = dom (data c)"
  by (simp add: lru_keys_def cache_inv_dom)

lemma lru_keys_distinct: "cache_inv c \<Longrightarrow> distinct (lru_keys c)"
  by (simp add: lru_keys_def distinct_map cache_inv_distinct cache_inv_keys_inj)

lemma removeExisting_absent_id: "data c key = None \<Longrightarrow> removeExisting c key = c"
  by (simp add: removeExisting_def)

lemma lru_keys_Set_new:
  assumes inv: "cache_inv c" and absent: "data c key = None"
  shows "lru_keys (Set c key val ttl now) = take (nat (maxSize c)) (key # lru_keys c)"
proof -
  let ?c2 = "insertEntry c key (newEntry key val ttl now)"
  have inv2: "cache_inv ?c2"
    using inv absent by (rule cache_inv_insertEntry) (simp add: newEntry_def)
  note r = evictLoop_result [OF inv2]
  have s: "Set c key val ttl now = evictLoop ?c2"
    by (simp add: Set_def removeExisting_absent_id [OF absent])
  have l: "lru (evictLoop ?c2) = take (nat (maxSize c)) (nextAddr c # lru c)"
    using r by simp
  have h: "heap (evictLoop ?c2) = (heap c)(nextAddr c := newEntry key val ttl now)"
    using r by simp
  have new: "nextAddr c \<notin> set (lru c)" using cache_inv_fresh [OF inv, of "nextAddr c"] by auto
  have old: "map (\<lambda>a. Key (((heap c)(nextAddr c := newEntry key val ttl now)) a)) (lru c)
             = map (\<lambda>a. Key (heap c a)) (lru c)"
    using new by (intro map_cong) auto
  have m: "map (\<lambda>a. Key (((heap c)(nextAddr c := newEntry key val ttl now)) a)) (nextAddr c # lru c)
        = key # map (\<lambda>a. Key (heap c a)) (lru c)"
    using old by (simp add: newEntry_def)
  show ?thesis
    unfolding s lru_keys_def l h by (simp only: m [symmetric] take_map)
qed

lemma take_append_take: "take n (xs @ take n ys) = take n (xs @ ys)"
  by (simp add: min_def)

lemma SetAll_append:
  "SetAll c (calls @ [(key, val, now)]) = Set (SetAll c calls) key val None now"
  by (induction c calls rule: SetAll.induct) simp_all

lemma cache_inv_SetAll: "cache_inv c \<Longrightarrow> cache_inv (SetAll c calls)"
  by (induction c calls rule: SetAll.induct) (simp_all add: cache_inv_Set)

lemma maxSize_SetAll [simp]: "maxSize (SetAll c calls) = maxSize c"
  by (induction c calls rule: SetAll.induct) simp_all

lemma lru_keys_SetAll:
  assumes "cache_inv c" and "distinct (map fst calls)"
    and "set (map fst calls) \<inter> dom (data c) = {}"
    and "currentSize c \<le> maxSize c"
  shows "lru_keys (SetAll c calls)
         = take (nat (maxSize c)) (rev (map fst calls) @ lru_keys c)"
  using assms
proof (induction c calls rule: SetAll.induct)
  case (1 c)
  have "length (lru_keys c) = length (lru c)" by (simp add: lru_keys_def)
  then have "int (length (lru_keys c)) = currentSize c"
    using cache_inv_size [OF "1.prems"(1)] by simp
  then have "length (lru_keys c) \<le> nat (maxSize c)" using "1.prems"(4) by simp
  then show ?case by simp
next
  case (2 c key val now calls)
  note inv = "2.prems"(1)
  let ?c' = "Set c key val None now"
  have absent: "data c key = None" using "2.prems"(3) by auto
  have inv': "cache_inv ?c'" using inv by (rule cache_inv_Set)
  have k': "lru_keys ?c' = take (nat (maxSize c)) (key # lru_keys c)"
    using inv absent by (rule lru_keys_Set_new)
  have "dom (data ?c') = set (lru_keys ?c')" using inv' by (simp add: lru_keys_dom)
  also have "\<dots> \<subseteq> insert key (set (lru_keys c))"
    unfolding k' using set_take_subset [of "nat (maxSize c)" "key # lru_keys c"] by simp
  also have "\<dots> = insert key (dom (data c))" using inv by (simp add: lru_keys_dom)
  finally have sub: "dom (data ?c') \<subseteq> insert key (dom (data c))" .
  have disj: "set (map fst calls) \<inter> dom (data ?c') = {}"
    using sub "2.prems"(2,3) by auto
  have d: "distinct (map fst calls)" using "2.prems"(2) by simp
  have "0 \<le> currentSize c" using cache_inv_size [OF inv] by simp
  then have "0 \<le> maxSize c" using "2.prems"(4) by simp
  then have b: "currentSize ?c' \<le> maxSize ?c'"
    using Set_bounded [OF inv, of key val None now] by simp
  have "lru_keys (SetAll ?c' calls)
        = take (nat (maxSize ?c')) (rev (map fst calls) @ lru_keys ?c')"
    using inv' d disj b by (rule "2.IH")
  also have "\<dots> = take (nat (maxSize c)) (rev (map fst calls) @ (key # lru_keys c))"
    unfolding k' by (simp only: maxSize_Set take_append_take)
  finally show ?case by simp
qed


lemma lru_keys_SetAll_empty:
  assumes inv: "cache_inv c" and empty: "lru c = []" and cap: "0 \<le> maxSize c"
    and dist: "distinct (map fst calls)"
  shows "lru_keys (SetAll c calls) = take (nat (maxSize c)) (rev (map fst calls))"
proof -
  have d: "data c = Map.empty" using inv empty by (rule cache_inv_empty)
  have "lru_keys (SetAll c calls)
        = take (nat (maxSize c)) (rev (map fst calls) @ lru_keys c)"
    using inv dist
  proof (rule lru_keys_SetAll)
    show "set (map fst calls) \<inter> dom (data c) = {}" by (simp add: d)
    show "currentSize c \<le> maxSize c"
      using cap cache_inv_size [OF inv] empty by simp
  qed
  then show ?thesis by (simp add: lru_keys_def empty)
qed

lemma Set_evicts_once:
  assumes inv: "cache_inv c" and absent: "data c key = None"
    and full: "currentSize c = maxSize c"
  shows "Set c key val ttl now = evictLRU (insertEntry c key (newEntry key val ttl now))"
proof -
  let ?c2 = "insertEntry c key (newEntry key val ttl now)"
  have ne: "lru ?c2 \<noteq> []" by simp
  have over: "maxSize ?c2 < currentSize ?c2" using full by simp
  have "\<not> (maxSize (evictLRU ?c2) < currentSize (evictLRU ?c2) \<and> lru (evictLRU ?c2) \<noteq> [])"
    using full by (simp add: evictLRU_nonempty [OF ne])
  from evictLoop_stop [OF this] evictLoop_step [OF over ne]
  show ?thesis by (simp add: Set_def removeExisting_absent_id [OF absent])
qed

lemma lru_keys_prefix:
  assumes inv: "cache_inv c" and empty: "lru c = []" and cap: "0 \<le> maxSize c"
    and dist: "distinct (map fst calls)" and m: "m \<le> nat (maxSize c)"
  shows "lru_keys (SetAll c (take m calls)) = rev (map fst (take m calls))"
proof -
  have "distinct (take m (map fst calls))" using dist by (rule distinct_take)
  then have "distinct (map fst (take m calls))" by (simp only: take_map)
  from lru_keys_SetAll_empty [OF inv empty cap this]
  have "lru_keys (SetAll c (take m calls))
        = take (nat (maxSize c)) (rev (map fst (take m calls)))" .
  moreover have "length (rev (map fst (take m calls))) \<le> nat (maxSize c)" using m by simp
  ultimately show ?thesis by simp
qed

lemma SetAll_empty_size:
  assumes inv: "cache_inv c" and empty: "lru c = []" and cap: "0 \<le> maxSize c"
    and dist: "distinct (map fst calls)"
  shows "currentSize (SetAll c calls) = int (min (nat (maxSize c)) (length calls))"
proof -
  have inv': "cache_inv (SetAll c calls)" using inv by (rule cache_inv_SetAll)
  have "length (lru (SetAll c calls)) = length (lru_keys (SetAll c calls))"
    by (simp add: lru_keys_def)
  also have "\<dots> = min (nat (maxSize c)) (length calls)"
    unfolding lru_keys_SetAll_empty [OF inv empty cap dist] by (simp add: min.commute)
  finally show ?thesis using cache_inv_size [OF inv'] by simp
qed

text \<open>
  Claim C4. Take an empty consistent cache (the new cache is one) of a capacity \<open>N\<close> of
  at least one, and \<open>N + 1\<close> \<open>Set\<close> calls without TTL on distinct keys, run with
  nothing in between. Afterwards the list holds the keys of all calls but the first, the
  latest in front; the map has exactly these keys; the size is \<open>N\<close>. After any of the
  first \<open>N\<close> calls every key set so far is in the map, so nothing was evicted; the last
  call is one \<open>removeEntry\<close> after the insertion, of the element at the back of the
  list, which carries the key of the first call. In general every round of the eviction
  loop removes the last element of the list.
\<close>

theorem first_inserted_key_is_evicted:
  assumes inv0: "cache_inv c" and empty: "lru c = []" and N: "1 \<le> maxSize c"
    and len: "length calls = nat (maxSize c) + 1"
    and dist: "distinct (map fst calls)"
  shows "lru_keys (SetAll c calls) = rev (map fst (tl calls))
    \<and> dom (data (SetAll c calls)) = set (map fst calls) - {fst (hd calls)}
    \<and> currentSize (SetAll c calls) = maxSize c
    \<and> (\<forall>m. m \<le> nat (maxSize c) \<longrightarrow>
          dom (data (SetAll c (take m calls))) = set (map fst (take m calls)))
    \<and> (case last calls of (key, val, now) \<Rightarrow>
          SetAll c calls
          = removeEntry
              (insertEntry (SetAll c (butlast calls)) key (newEntry key val None now))
              (last (lru (SetAll c (butlast calls)))))
    \<and> Key (heap (SetAll c (butlast calls))
             (last (lru (SetAll c (butlast calls))))) = fst (hd calls)
    \<and> (\<forall>c'. maxSize c' < currentSize c' \<and> lru c' \<noteq> [] \<longrightarrow>
          evictLoop c' = evictLoop (removeEntry c' (last (lru c'))))
    \<and> cache_inv (NewCache n) \<and> lru (NewCache n) = [] \<and> maxSize (NewCache n) = n"
proof -
  let ?run = "\<lambda>xs. SetAll c xs"
  let ?ks = "map fst calls"
  let ?N = "maxSize c"
  have N0: "0 \<le> ?N" using N by simp
  have ne: "calls \<noteq> []" using len by auto
  have inv: "cache_inv (?run xs)" for xs using inv0 by (rule cache_inv_SetAll)
  have ks: "?ks = fst (hd calls) # map fst (tl calls)"
    using ne by (cases calls) simp_all
  have ltl: "length (map fst (tl calls)) = nat ?N" using len by simp
  \<comment> \<open>the list after all the calls\<close>
  have "rev ?ks = rev (map fst (tl calls)) @ [fst (hd calls)]"
    by (subst ks) simp
  then have "take (nat ?N) (rev ?ks) = rev (map fst (tl calls))" using ltl by simp
  then have 1: "lru_keys (?run calls) = rev (map fst (tl calls))"
    using lru_keys_SetAll_empty [OF inv0 empty N0 dist] by simp
  have "fst (hd calls) \<notin> set (map fst (tl calls))"
    using dist by (subst (asm) ks) simp
  moreover have "set ?ks = insert (fst (hd calls)) (set (map fst (tl calls)))"
    by (subst ks) simp
  ultimately have "set (map fst (tl calls)) = set ?ks - {fst (hd calls)}" by auto
  then have 2: "dom (data (?run calls)) = set ?ks - {fst (hd calls)}"
    using lru_keys_dom [OF inv, of calls] 1 by simp
  have 3: "currentSize (?run calls) = ?N"
    using SetAll_empty_size [OF inv0 empty N0 dist] len N0 by simp
  \<comment> \<open>no eviction during the first N calls\<close>
  have pre: "dom (data (?run (take m calls))) = set (map fst (take m calls))"
    if "m \<le> nat ?N" for m
    using lru_keys_dom [OF inv, of "take m calls"]
      lru_keys_prefix [OF inv0 empty N0 dist that] by simp
  then have 4: "\<forall>m. m \<le> nat ?N \<longrightarrow>
      dom (data (?run (take m calls))) = set (map fst (take m calls))" by blast
  \<comment> \<open>the last call evicts once, at the back\<close>
  let ?init = "butlast calls"
  let ?cN = "?run ?init"
  have init: "?init = take (nat ?N) calls" using len by (simp add: butlast_conv_take)
  obtain key val now where lst: "last calls = (key, val, now)" by (cases "last calls")
  have split: "calls = ?init @ [(key, val, now)]" using ne lst by (metis append_butlast_last_id)
  have "distinct (take (nat ?N) (map fst calls))" using dist by (rule distinct_take)
  then have distI: "distinct (map fst ?init)" by (simp only: init take_map)
  have "key \<notin> set (map fst ?init)"
    using dist by (subst (asm) split) simp
  then have "key \<notin> dom (data ?cN)"
    using pre [of "nat ?N"] init by simp
  then have absent: "data ?cN key = None" by (simp only: domIff not_not)
  have "currentSize ?cN = int (min (nat ?N) (length ?init))"
    using inv0 empty N0 distI by (rule SetAll_empty_size)
  then have szN: "currentSize ?cN = ?N" using len N0 by simp
  then have full: "currentSize ?cN = maxSize ?cN" by simp
  have lN: "lru ?cN \<noteq> []" using cache_inv_size [OF inv, of ?init] szN N by auto
  have "?run calls = Set ?cN key val None now"
    by (subst split) (simp only: SetAll_append)
  also have "\<dots> = evictLRU (insertEntry ?cN key (newEntry key val None now))"
    using inv absent full by (rule Set_evicts_once)
  also have "\<dots> = removeEntry (insertEntry ?cN key (newEntry key val None now)) (last (lru ?cN))"
    using lN by (simp add: evictLRU_nonempty)
  finally have 5: "case last calls of (key, val, now) \<Rightarrow>
          ?run calls = removeEntry (insertEntry ?cN key (newEntry key val None now))
                         (last (lru ?cN))"
    by (simp add: lst)
  have "Key (heap ?cN (last (lru ?cN))) = last (lru_keys ?cN)"
    using lN by (simp add: lru_keys_def last_map)
  also have "\<dots> = last (rev (map fst ?init))"
    using lru_keys_prefix [OF inv0 empty N0 dist, of "nat ?N"] init by simp
  also have "\<dots> = fst (hd calls)"
    using N ne by (simp add: init last_rev hd_map take_map [symmetric])
  finally have 6: "Key (heap ?cN (last (lru ?cN))) = fst (hd calls)" .
  have 7: "\<forall>c'. maxSize c' < currentSize c' \<and> lru c' \<noteq> [] \<longrightarrow>
          evictLoop c' = evictLoop (removeEntry c' (last (lru c')))"
    using evictLoop_step evictLRU_nonempty by (metis (no_types))
  have 8: "cache_inv (NewCache n)" by (rule cache_inv_NewCache)
  have 9: "lru (NewCache n) = []" "maxSize (NewCache n) = n" by (simp_all add: NewCache_def)
  show ?thesis using 1 2 3 4 5 6 7 8 9 by (intro conjI)
qed

theorem first_inserted_key_is_evicted_witness:
  "cache_inv (NewCache 2) \<and> lru (NewCache 2) = [] \<and> 1 \<le> maxSize (NewCache 2)
   \<and> length [(''a'', [1::byte], 0::time), (''b'', [2], 1), (''c'', [3], 2)]
       = nat (maxSize (NewCache 2)) + 1
   \<and> distinct (map fst [(''a'', [1::byte], 0::time), (''b'', [2], 1), (''c'', [3], 2)])
   \<and> lru_keys (SetAll (NewCache 2) [(''a'', [1], 0), (''b'', [2], 1), (''c'', [3], 2)])
       = [''c'', ''b'']
   \<and> dom (data (SetAll (NewCache 2) [(''a'', [1], 0), (''b'', [2], 1), (''c'', [3], 2)]))
       = {''a'', ''b'', ''c''} - {''a''}
   \<and> currentSize (SetAll (NewCache 2) [(''a'', [1], 0), (''b'', [2], 1), (''c'', [3], 2)]) = 2"
proof -
  let ?calls = "[(''a'', [1::byte], 0::time), (''b'', [2], 1), (''c'', [3], 2)]"
  have h: "cache_inv (NewCache 2)" by (rule cache_inv_NewCache)
  have e: "lru (NewCache 2) = []" by (simp add: NewCache_def)
  have m: "maxSize (NewCache 2) = 2" by (simp add: NewCache_def)
  have n: "1 \<le> maxSize (NewCache 2)" unfolding m by simp
  have l: "length ?calls = nat (maxSize (NewCache 2)) + 1" unfolding m by simp
  have d: "distinct (map fst ?calls)" by simp
  note t = first_inserted_key_is_evicted [OF h e n l d]
  have 1: "lru_keys (SetAll (NewCache 2) ?calls) = [''c'', ''b'']"
    using t [THEN conjunct1] by simp
  have 2: "dom (data (SetAll (NewCache 2) ?calls)) = {''a'', ''b'', ''c''} - {''a''}"
    using t [THEN conjunct2, THEN conjunct1] by simp
  have 3: "currentSize (SetAll (NewCache 2) ?calls) = 2"
    using t [THEN conjunct2, THEN conjunct2, THEN conjunct1] unfolding m by simp
  show ?thesis using h e n l d 1 2 3 by (intro conjI)
qed

section \<open>Cleanup\<close>

lemma remove1_as_filter: "distinct xs \<Longrightarrow> remove1 a xs = filter (\<lambda>b. b \<noteq> a) xs"
proof (induction xs)
  case Nil
  show ?case by simp
next
  case (Cons x xs)
  show ?case
  proof (cases "x = a")
    case True
    then have "a \<notin> set xs" using Cons.prems by simp
    then have "filter (\<lambda>b. b \<noteq> a) xs = xs" by (auto simp: filter_id_conv)
    with True show ?thesis by simp
  next
    case False
    with Cons show ?thesis by simp
  qed
qed

lemma remove1_filter_key:
  assumes inv: "cache_inv c" and a: "a \<in> set (lru c)"
  shows "filter P (remove1 a (lru c))
         = filter (\<lambda>b. Key (heap c b) \<noteq> Key (heap c a) \<and> P b) (lru c)"
proof -
  have "remove1 a (lru c) = filter (\<lambda>b. b \<noteq> a) (lru c)"
    using cache_inv_distinct [OF inv] by (rule remove1_as_filter)
  then have "filter P (remove1 a (lru c)) = filter (\<lambda>b. b \<noteq> a \<and> P b) (lru c)"
    by (simp add: conj_commute)
  also have "\<dots> = filter (\<lambda>b. Key (heap c b) \<noteq> Key (heap c a) \<and> P b) (lru c)"
  proof (rule filter_cong [OF refl])
    fix b assume b: "b \<in> set (lru c)"
    have "b = a \<longleftrightarrow> Key (heap c b) = Key (heap c a)"
      using inj_onD [OF cache_inv_keys_inj [OF inv] _ b a] by auto
    then show "(b \<noteq> a \<and> P b) = (Key (heap c b) \<noteq> Key (heap c a) \<and> P b)" by simp
  qed
  finally show ?thesis .
qed

lemma expiredKeys_Cons:
  "expiredKeys c (p # sched)
   = (if expiredAt c p then fst p # expiredKeys c sched else expiredKeys c sched)"
  by (simp add: expiredKeys_def)

lemma expiredKeys_removeEntry:
  assumes inv: "cache_inv c" and present: "data c key = Some a"
    and fresh: "key \<notin> set (map fst sched)"
  shows "expiredKeys (removeEntry c a) sched = expiredKeys c sched"
proof -
  have k: "Key (heap c a) = key" using inv present by (rule cache_inv_key)
  have "filter (expiredAt (removeEntry c a)) sched = filter (expiredAt c) sched"
  proof (rule filter_cong [OF refl])
    fix p assume "p \<in> set sched"
    then have "fst p \<noteq> key" using fresh by auto
    then show "expiredAt (removeEntry c a) p = expiredAt c p"
      by (simp add: expiredAt_def k split: option.split)
  qed
  then show ?thesis by (simp add: expiredKeys_def)
qed

lemma CleanupLoop_result:
  assumes "cache_inv c" and "distinct (map fst sched)"
  shows "fst (CleanupLoop sched c n) = n + int (length (expiredKeys c sched))
    \<and> data (snd (CleanupLoop sched c n))
        = (\<lambda>k. if k \<in> set (expiredKeys c sched) then None else data c k)
    \<and> lru (snd (CleanupLoop sched c n))
        = filter (\<lambda>a. Key (heap c a) \<notin> set (expiredKeys c sched)) (lru c)
    \<and> heap (snd (CleanupLoop sched c n)) = heap c
    \<and> nextAddr (snd (CleanupLoop sched c n)) = nextAddr c
    \<and> currentSize (snd (CleanupLoop sched c n))
        = currentSize c - int (length (expiredKeys c sched))"
  using assms
proof (induction sched arbitrary: c n)
  case Nil
  show ?case by (simp add: expiredKeys_def)
next
  case (Cons p sched)
  obtain key now where p: "p = (key, now)" by (cases p)
  note inv = Cons.prems(1)
  have d: "distinct (map fst sched)" and fresh: "key \<notin> set (map fst sched)"
    using Cons.prems(2) by (simp_all add: p)
  show ?case
  proof (cases "expiredAt c p")
    case False
    then have step: "CleanupLoop (p # sched) c n = CleanupLoop sched c n"
      by (cases "data c key") (simp_all add: p expiredAt_def)
    have e: "expiredKeys c (p # sched) = expiredKeys c sched"
      using False by (simp add: expiredKeys_Cons)
    show ?thesis unfolding step e using inv d by (rule Cons.IH)
  next
    case True
    then obtain a where present: "data c key = Some a" and ex: "is_expired (heap c a) now"
      by (cases "data c key") (simp_all add: p expiredAt_def)
    let ?c1 = "removeEntry c a"
    have k: "Key (heap c a) = key" using inv present by (rule cache_inv_key)
    have l: "a \<in> set (lru c)" using inv present by (rule cache_inv_listed)
    have inv1: "cache_inv ?c1" using inv l by (rule cache_inv_removeEntry)
    have step: "CleanupLoop (p # sched) c n = CleanupLoop sched ?c1 (n + 1)"
      unfolding p using inv present ex by (rule CleanupLoop_expired)
    have e1: "expiredKeys ?c1 sched = expiredKeys c sched"
      using inv present fresh by (rule expiredKeys_removeEntry)
    have e: "expiredKeys c (p # sched) = key # expiredKeys c sched"
      using True by (simp add: expiredKeys_Cons p)
    note IH = Cons.IH [OF inv1 d, of "n + 1", unfolded e1]
    let ?E = "set (expiredKeys c sched)"
    have 1: "fst (CleanupLoop sched ?c1 (n + 1)) = n + int (length (key # expiredKeys c sched))"
      using IH by simp
    have 2: "data (snd (CleanupLoop sched ?c1 (n + 1)))
             = (\<lambda>k. if k \<in> set (key # expiredKeys c sched) then None else data c k)"
    proof
      fix x
      show "data (snd (CleanupLoop sched ?c1 (n + 1))) x
            = (if x \<in> set (key # expiredKeys c sched) then None else data c x)"
        using IH by (simp add: k)
    qed
    have "lru (snd (CleanupLoop sched ?c1 (n + 1)))
          = filter (\<lambda>b. Key (heap c b) \<notin> ?E) (remove1 a (lru c))"
      using IH by simp
    also have "\<dots> = filter (\<lambda>b. Key (heap c b) \<noteq> Key (heap c a) \<and> Key (heap c b) \<notin> ?E) (lru c)"
      using inv l by (rule remove1_filter_key)
    also have "\<dots> = filter (\<lambda>b. Key (heap c b) \<notin> set (key # expiredKeys c sched)) (lru c)"
      by (simp add: k)
    finally have 3: "lru (snd (CleanupLoop sched ?c1 (n + 1)))
          = filter (\<lambda>b. Key (heap c b) \<notin> set (key # expiredKeys c sched)) (lru c)" .
    have 4: "heap (snd (CleanupLoop sched ?c1 (n + 1))) = heap c" using IH by simp
    have 5: "nextAddr (snd (CleanupLoop sched ?c1 (n + 1))) = nextAddr c" using IH by simp
    have 6: "currentSize (snd (CleanupLoop sched ?c1 (n + 1)))
             = currentSize c - int (length (key # expiredKeys c sched))"
      using IH by simp
    show ?thesis unfolding step e using 1 2 3 4 5 6 by (intro conjI)
  qed
qed


lemma expiredKeys_distinct: "distinct (map fst sched) \<Longrightarrow> distinct (expiredKeys c sched)"
  unfolding expiredKeys_def by (rule distinct_map_filter)

lemma expiredKeys_iff:
  assumes dist: "distinct (map fst sched)" and t: "map_of sched k = Some t"
    and present: "data c k = Some a"
  shows "k \<in> set (expiredKeys c sched) \<longleftrightarrow> is_expired (heap c a) t"
proof
  assume "k \<in> set (expiredKeys c sched)"
  then obtain p where p: "p \<in> set sched" and e: "expiredAt c p" and f: "fst p = k"
    by (auto simp: expiredKeys_def)
  have "p = (k, snd p)" using f by (cases p) simp
  then have "(k, snd p) \<in> set sched" using p by simp
  then have "map_of sched k = Some (snd p)" using dist by simp
  then have "snd p = t" using t by simp
  then show "is_expired (heap c a) t" using e f present by (simp add: expiredAt_def)
next
  assume ex: "is_expired (heap c a) t"
  have p: "(k, t) \<in> set sched" using t by (rule map_of_SomeD)
  have "expiredAt c (k, t)" using ex present by (simp add: expiredAt_def)
  then have "(k, t) \<in> set (filter (expiredAt c) sched)" using p by simp
  then have "fst (k, t) \<in> fst ` set (filter (expiredAt c) sched)" by (rule imageI)
  then show "k \<in> set (expiredKeys c sched)" by (simp add: expiredKeys_def)
qed

lemma expiredKeys_present: "set (expiredKeys c sched) \<subseteq> dom (data c)"
  by (auto simp: expiredKeys_def expiredAt_def split: option.splits)

text \<open>
  Claim C6. The loop of \<open>Cleanup\<close> examines every key of the map once, each at its
  own clock reading. It removes the keys whose entry has an expiry time before that
  reading and no other: these keys leave the map, their elements leave the list, the
  other keys keep their map entries and their place in the order of the list, no
  entry is changed, the size goes down by the number of removed keys, and this
  number is the result. The state it leaves is consistent.
\<close>

theorem Cleanup_removes_the_expired:
  assumes inv: "cache_inv c" and dist: "distinct (map fst sched)"
    and cover: "set (map fst sched) = dom (data c)"
  shows "fst (Cleanup c sched) = int (card (set (expiredKeys c sched)))
    \<and> (\<forall>k a. data c k = Some a \<longrightarrow>
          (\<exists>t. map_of sched k = Some t
             \<and> (k \<in> set (expiredKeys c sched) \<longleftrightarrow> is_expired (heap c a) t)))
    \<and> set (expiredKeys c sched) \<subseteq> dom (data c)
    \<and> dom (data (snd (Cleanup c sched))) = dom (data c) - set (expiredKeys c sched)
    \<and> (\<forall>k. k \<notin> set (expiredKeys c sched) \<longrightarrow> data (snd (Cleanup c sched)) k = data c k)
    \<and> lru (snd (Cleanup c sched))
        = filter (\<lambda>a. Key (heap c a) \<notin> set (expiredKeys c sched)) (lru c)
    \<and> heap (snd (Cleanup c sched)) = heap c
    \<and> currentSize (snd (Cleanup c sched))
        = currentSize c - int (card (set (expiredKeys c sched)))
    \<and> cache_inv (snd (Cleanup c sched))"
proof -
  let ?E = "expiredKeys c sched"
  let ?c' = "snd (Cleanup c sched)"
  note r = CleanupLoop_result [OF inv dist, of 0, folded Cleanup_def]
  have card: "card (set ?E) = length ?E"
    using expiredKeys_distinct [OF dist] by (rule distinct_card)
  have 1: "fst (Cleanup c sched) = int (card (set ?E))" using r card by simp
  have 2: "\<forall>k a. data c k = Some a \<longrightarrow>
          (\<exists>t. map_of sched k = Some t \<and> (k \<in> set ?E \<longleftrightarrow> is_expired (heap c a) t))"
  proof (intro allI impI)
    fix k a assume present: "data c k = Some a"
    then have "k \<in> set (map fst sched)" unfolding cover by auto
    then have "k \<in> dom (map_of sched)" by (simp add: dom_map_of_conv_image_fst)
    then obtain t where t: "map_of sched k = Some t" by auto
    from expiredKeys_iff [OF dist t present] t
    show "\<exists>t. map_of sched k = Some t \<and> (k \<in> set ?E \<longleftrightarrow> is_expired (heap c a) t)"
      by blast
  qed
  have 3: "set ?E \<subseteq> dom (data c)" by (rule expiredKeys_present)
  have d: "data ?c' = (\<lambda>k. if k \<in> set ?E then None else data c k)" using r by simp
  have 4: "dom (data ?c') = dom (data c) - set ?E"
    unfolding d by (auto split: if_splits)
  have 5: "\<forall>k. k \<notin> set ?E \<longrightarrow> data ?c' k = data c k" unfolding d by simp
  have 6: "lru ?c' = filter (\<lambda>a. Key (heap c a) \<notin> set ?E) (lru c)" using r by simp
  have 7: "heap ?c' = heap c" using r by simp
  have 8: "currentSize ?c' = currentSize c - int (card (set ?E))" using r card by simp
  have 9: "cache_inv ?c'" using inv by (rule cache_inv_Cleanup)
  show ?thesis using 1 2 3 4 5 6 7 8 9 by (intro conjI)
qed

theorem Cleanup_removes_the_expired_witness:
  "cache_inv (Set (Set (NewCache 2) ''a'' [1] (Some 5) 0) ''b'' [2] None 1)
   \<and> distinct (map fst [(''b'', 8::time), (''a'', 9)])
   \<and> set (map fst [(''b'', 8::time), (''a'', 9)])
       = dom (data (Set (Set (NewCache 2) ''a'' [1] (Some 5) 0) ''b'' [2] None 1))
   \<and> fst (Cleanup (Set (Set (NewCache 2) ''a'' [1] (Some 5) 0) ''b'' [2] None 1)
             [(''b'', 8), (''a'', 9)]) = 1
   \<and> dom (data (snd (Cleanup (Set (Set (NewCache 2) ''a'' [1] (Some 5) 0) ''b'' [2] None 1)
             [(''b'', 8), (''a'', 9)]))) = {''b''}"
proof -
  let ?c = "Set (Set (NewCache 2) ''a'' [1] (Some 5) 0) ''b'' [2] None 1"
  let ?s = "[(''b'', 8::time), (''a'', 9)]"
  have h: "cache_inv ?c" by (intro cache_inv_Set cache_inv_NewCache)
  have d: "distinct (map fst ?s)" by simp
  have dm: "data ?c = [''a'' \<mapsto> 0, ''b'' \<mapsto> 1]"
    by (simp add: Set_def NewCache_def removeExisting_def newEntry_def evictLoop.simps)
  have hp: "heap ?c 0 = newEntry ''a'' [1] (Some 5) 0" "heap ?c (Suc 0) = newEntry ''b'' [2] None 1"
    by (simp_all add: Set_def NewCache_def removeExisting_def evictLoop.simps)
  have cv: "set (map fst ?s) = dom (data ?c)" unfolding dm by auto
  have e: "expiredKeys ?c ?s = [''a'']"
    by (simp add: expiredKeys_def expiredAt_def dm hp is_expired_def newEntry_def)
  note t = Cleanup_removes_the_expired [OF h d cv]
  have 1: "fst (Cleanup ?c ?s) = 1" using t [THEN conjunct1] unfolding e by simp
  have 4: "dom (data (snd (Cleanup ?c ?s))) = {''b''}"
    using t [THEN conjunct2, THEN conjunct2, THEN conjunct2, THEN conjunct1]
    unfolding e dm by auto
  show ?thesis using h d cv 1 4 by (intro conjI)
qed

section \<open>Statistics\<close>























end
